theory Spec2Isabelle
  imports Main "HOL-Library.AList" "HOL-Library.Char_ord" "HOL-Library.List_Lexorder"
begin

section \<open>Lexical segmenter (decoder.py, segment\_into\_words)\<close>

text \<open>
  A phrase is the list of words the segmenter returns; the table \<open>dp\<close> of the source holds,
  for every end index, either \<open>None\<close> or the phrase found for that prefix.
  Python sets of strings are modelled as \<open>string set\<close>; the integer
  \<open>max_word_length\<close> is an unbounded Python int.
\<close>

type_synonym phrase = "string list"
type_synonym dp_table = "phrase option list"

text \<open>The slice \<open>decoded_chars[j:i]\<close> joined into one string, for \<open>j \<le> i \<le> len\<close>.\<close>

definition slice :: "string \<Rightarrow> nat \<Rightarrow> nat \<Rightarrow> string" where
  "slice decoded_chars j i = take (i - j) (drop j decoded_chars)"

text \<open>The body of the inner loop, for one start index \<open>j\<close> and the end index \<open>i\<close>.\<close>

definition seg_step :: "string \<Rightarrow> string set \<Rightarrow> string set \<Rightarrow> nat \<Rightarrow> nat \<Rightarrow> dp_table \<Rightarrow> dp_table" where
  "seg_step decoded_chars words_set prefixes_set i j dp =
     (case dp ! j of
        None \<Rightarrow> dp
      | Some pj \<Rightarrow>
          (let word = slice decoded_chars j i in
           if word \<in> words_set then
             (case dp ! i of
                None \<Rightarrow> dp[i := Some (pj @ [word])]
              | Some pi \<Rightarrow>
                  if length pj + 1 < length pi then dp[i := Some (pj @ [word])] else dp)
           else if word \<in> prefixes_set then dp
           else dp))"

text \<open>\<open>range(max(0, i - max_word_length), i)\<close>\<close>

definition seg_range :: "int \<Rightarrow> nat \<Rightarrow> nat list" where
  "seg_range max_word_length i = [nat (max 0 (int i - max_word_length)) ..< i]"

definition seg_inner :: "string \<Rightarrow> string set \<Rightarrow> string set \<Rightarrow> int \<Rightarrow> nat \<Rightarrow> dp_table \<Rightarrow> dp_table" where
  "seg_inner decoded_chars words_set prefixes_set max_word_length i dp =
     fold (seg_step decoded_chars words_set prefixes_set i) (seg_range max_word_length i) dp"

definition seg_table :: "string \<Rightarrow> string set \<Rightarrow> string set \<Rightarrow> int \<Rightarrow> dp_table" where
  "seg_table decoded_chars words_set prefixes_set max_word_length =
     (let n = length decoded_chars in
      fold (seg_inner decoded_chars words_set prefixes_set max_word_length)
           [1 ..< n + 1]
           ((replicate (n + 1) None)[0 := Some []]))"

definition segment_into_words :: "string \<Rightarrow> string set \<Rightarrow> string set \<Rightarrow> int \<Rightarrow> phrase option" where
  "segment_into_words decoded_chars words_set prefixes_set max_word_length =
     seg_table decoded_chars words_set prefixes_set max_word_length ! length decoded_chars"


text \<open>
  The prefix-free segmenter of melody\_decoder.py: the membership test is on the two
  sets, and comes before the test that \<open>dp[j]\<close> is filled.
\<close>

definition md_seg_step :: "string \<Rightarrow> string set \<Rightarrow> string set \<Rightarrow> nat \<Rightarrow> nat \<Rightarrow> dp_table \<Rightarrow> dp_table" where
  "md_seg_step s english_words all_names i j dp =
     (let word = slice s j i in
      if word \<in> english_words \<or> word \<in> all_names then
        (case dp ! j of
           None \<Rightarrow> dp
         | Some pj \<Rightarrow>
             (case dp ! i of
                None \<Rightarrow> dp[i := Some (pj @ [word])]
              | Some pi \<Rightarrow>
                  if length pj + 1 < length pi then dp[i := Some (pj @ [word])] else dp))
      else dp)"

definition md_seg_inner :: "string \<Rightarrow> string set \<Rightarrow> string set \<Rightarrow> int \<Rightarrow> nat \<Rightarrow> dp_table \<Rightarrow> dp_table" where
  "md_seg_inner s english_words all_names max_word_length i dp =
     fold (md_seg_step s english_words all_names i) (seg_range max_word_length i) dp"

definition md_segment_into_words :: "string \<Rightarrow> string set \<Rightarrow> string set \<Rightarrow> int \<Rightarrow> phrase option" where
  "md_segment_into_words s english_words all_names max_word_length =
     (let n = length s in
      fold (md_seg_inner s english_words all_names max_word_length)
           [1 ..< n + 1]
           ((replicate (n + 1) None)[0 := Some []]) ! n)"


section \<open>Phrase validation (is\_valid\_phrase)\<close>

definition valid_single_letter_words :: "string set" where
  "valid_single_letter_words = {''a'', ''i''}"

fun is_valid_loop :: "phrase \<Rightarrow> string set \<Rightarrow> string set \<Rightarrow> bool" where
  "is_valid_loop [] all_names english_words = True"
| "is_valid_loop (word # rest) all_names english_words =
     (if length word = 1 \<and> word \<notin> valid_single_letter_words then False
      else if \<not> (word \<in> english_words \<or> word \<in> all_names) then False
      else is_valid_loop rest all_names english_words)"

definition is_valid_phrase :: "phrase \<Rightarrow> string set \<Rightarrow> string set \<Rightarrow> bool" where
  "is_valid_phrase phrase all_names english_words =
     (if phrase = [] then False else is_valid_loop phrase all_names english_words)"

section \<open>Scale mapper (create\_letter\_note\_mapping, reverse\_mapping)\<close>

text \<open>
  The scale object comes from the music21 library. The code uses it only through
  \<open>sc.pitchFromDegree(degree).name\<close>, so a scale is taken as the function from a degree
  to that pitch name, \<open>None\<close> when the call raises.
  A Python dict is an association list in insertion order: \<open>AList.update\<close> replaces the
  value of a present key in place and appends a new key at the end.
\<close>

type_synonym scale = "nat \<Rightarrow> string option"

datatype error = IndexError

definition letters :: string where
  "letters = ''abcdefghijklmnopqrstuvwxyz''"

definition degrees :: "nat list" where
  "degrees = [1 ..< 8]"

definition degree_count :: nat where
  "degree_count = length degrees"

text \<open>
  The \<open>while len(mapping) < 26\<close> loop. A raise of \<open>pitchFromDegree\<close> is caught and the empty
  dict is returned; \<open>letters[idx]\<close> raises \<open>IndexError\<close> past the alphabet.
\<close>

function create_loop :: "scale \<Rightarrow> nat \<Rightarrow> (char \<times> string) list \<Rightarrow> error + (char \<times> string) list" where
  "create_loop sc idx mapping =
     (if length mapping < 26 then
        (let degree = degrees ! (idx mod degree_count) in
         case sc degree of
           None \<Rightarrow> Inr []
         | Some pitch_name \<Rightarrow>
             if idx < length letters
             then create_loop sc (idx + 1) (AList.update (letters ! idx) pitch_name mapping)
             else Inl IndexError)
      else Inr mapping)"
  by pat_completeness auto
termination
  by (relation "measure (\<lambda>(sc, idx, mapping). 26 - idx)") (auto simp: letters_def)

declare create_loop.simps [simp del]

definition create_letter_note_mapping :: "scale \<Rightarrow> error + (char \<times> string) list" where
  "create_letter_note_mapping sc = create_loop sc 0 []"

fun reverse_loop :: "(char \<times> string) list \<Rightarrow> (string \<times> string) list \<Rightarrow> (string \<times> string) list" where
  "reverse_loop [] note_to_letters = note_to_letters"
| "reverse_loop ((letter, pitch_name) # rest) note_to_letters =
     (let note_to_letters1 =
            (if map_of note_to_letters pitch_name = None
             then AList.update pitch_name [] note_to_letters
             else note_to_letters)
      in reverse_loop rest
           (AList.map_entry pitch_name (\<lambda>ls. ls @ [letter]) note_to_letters1))"

definition reverse_mapping :: "(char \<times> string) list \<Rightarrow> (string \<times> string) list" where
  "reverse_mapping mapping = reverse_loop mapping []"

section \<open>Melody expander (decode\_melody)\<close>

text \<open>
  \<open>pitch.Pitch(n).getEnharmonic().name\<close> is music21 code: it is taken as a function from a
  note name to the enharmonic name, \<open>None\<close> when the library raises.
  \<open>note_to_letters.get(n, [])\<close> is the lookup with the empty list as default.
\<close>

type_synonym enharmonic = "string \<Rightarrow> string option"

definition dict_get :: "(string \<times> string) list \<Rightarrow> string \<Rightarrow> string" where
  "dict_get note_to_letters n = (case map_of note_to_letters n of None \<Rightarrow> [] | Some ls \<Rightarrow> ls)"

definition letters_for :: "(string \<times> string) list \<Rightarrow> enharmonic \<Rightarrow> string \<Rightarrow> string" where
  "letters_for note_to_letters getEnharmonic n =
     (let ls = dict_get note_to_letters n in
      if ls = [] then
        (case getEnharmonic n of
           Some enharmonic_name \<Rightarrow> dict_get note_to_letters enharmonic_name
         | None \<Rightarrow> [])
      else ls)"

fun possible_letters :: "(string \<times> string) list \<Rightarrow> enharmonic \<Rightarrow> string list \<Rightarrow> string list \<Rightarrow> string list option" where
  "possible_letters note_to_letters getEnharmonic [] acc = Some acc"
| "possible_letters note_to_letters getEnharmonic (n # melody) acc =
     (let ls = letters_for note_to_letters getEnharmonic n in
      if ls \<noteq> [] then possible_letters note_to_letters getEnharmonic melody (acc @ [ls])
      else None)"

text \<open>\<open>itertools.product(*lists)\<close>: the rightmost position advances fastest.\<close>

fun itertools_product :: "'a list list \<Rightarrow> 'a list list" where
  "itertools_product [] = [[]]"
| "itertools_product (xs # xss) =
     concat (map (\<lambda>x. map (\<lambda>rest. x # rest) (itertools_product xss)) xs)"

definition decode_melody :: "(string \<times> string) list \<Rightarrow> enharmonic \<Rightarrow> string list \<Rightarrow> string list" where
  "decode_melody note_to_letters getEnharmonic melody =
     (case possible_letters note_to_letters getEnharmonic melody [] of
        None \<Rightarrow> []
      | Some pls \<Rightarrow> itertools_product pls)"


section \<open>Search orchestrator (process\_root\_mode, decode\_tone\_row\_parallel, main)\<close>

record result =
  phrase_text :: string
  decoded_root_note :: string
  decoded_scale :: string
  num_words :: nat

text \<open>\<open>' '.join(phrase)\<close>\<close>

fun join_space :: "string list \<Rightarrow> string" where
  "join_space [] = []"
| "join_space [w] = w"
| "join_space (w # v # ws) = w @ '' '' @ join_space (v # ws)"

text \<open>
  A mode class of music21 builds the scale of a root; \<open>None\<close> when the constructor raises.
  Every exception inside a work item is caught and the work item returns no records.
  \<open>decode_melody\<close> returns the list \<open>[]\<close> or a product iterator, which Python takes as
  true even when it yields nothing; the product of non-empty letter lists is never empty,
  so the test \<open>if not decoded_combinations\<close> is the test for the empty list here.
  The set \<open>single_words\<close> of decoder.py is filled in the worker processes only and takes no
  part in the reported phrases; it is left out.
\<close>

type_synonym mode_class = "string \<Rightarrow> scale option"

definition process_root_mode ::
  "enharmonic \<Rightarrow> string \<times> string \<times> mode_class \<Rightarrow> string list \<Rightarrow> string set \<Rightarrow> string set \<Rightarrow> int
     \<Rightarrow> string set \<Rightarrow> string set \<Rightarrow> result list" where
  "process_root_mode getEnharmonic root_mode_tuple melody_notes words_set prefixes_set
       max_word_length all_names english_words =
     (case root_mode_tuple of (decode_root, decode_mode_name, decode_mode_class) \<Rightarrow>
      case decode_mode_class decode_root of
        None \<Rightarrow> []
      | Some decode_sc \<Rightarrow>
          (case create_letter_note_mapping decode_sc of
             Inl e \<Rightarrow> []
           | Inr mapping \<Rightarrow>
               if mapping = [] then []
               else
                 (let note_letter_map = reverse_mapping mapping;
                      decoded_combinations = decode_melody note_letter_map getEnharmonic melody_notes
                  in if decoded_combinations = [] then []
                     else concat (map (\<lambda>decoded_chars.
                            case segment_into_words decoded_chars words_set prefixes_set max_word_length of
                              None \<Rightarrow> []
                            | Some phrase \<Rightarrow>
                                if phrase \<noteq> [] \<and> is_valid_phrase phrase all_names english_words
                                then [\<lparr>phrase_text = join_space phrase,
                                       decoded_root_note = decode_root,
                                       decoded_scale = decode_mode_name,
                                       num_words = length phrase\<rparr>]
                                else [])
                          decoded_combinations))))"

text \<open>\<open>tone_row.strip().split()\<close> and \<open>n.upper()\<close>, on ASCII.\<close>

definition is_space :: "char \<Rightarrow> bool" where
  "is_space c \<longleftrightarrow> c \<in> {CHR '' '', CHR 0x09, CHR 0x0A, CHR 0x0B, CHR 0x0C, CHR 0x0D}"

fun split_loop :: "string \<Rightarrow> string \<Rightarrow> string list" where
  "split_loop [] cur = (if cur = [] then [] else [cur])"
| "split_loop (c # cs) cur =
     (if is_space c then (if cur = [] then split_loop cs [] else cur # split_loop cs [])
      else split_loop cs (cur @ [c]))"

definition split_ws :: "string \<Rightarrow> string list" where
  "split_ws s = split_loop s []"

definition upper_char :: "char \<Rightarrow> char" where
  "upper_char c =
     (if CHR ''a'' \<le> c \<and> c \<le> CHR ''z'' then char_of (of_char c - (32::nat)) else c)"

definition upper :: "string \<Rightarrow> string" where
  "upper s = map upper_char s"

definition valid_note_names :: "string set" where
  "valid_note_names =
     {''C'', ''C#'', ''D'', ''D#'', ''E'', ''F'', ''F#'', ''G'', ''G#'', ''A'', ''A#'', ''B''}"

text \<open>
  The validation loop of decoder.py: a note outside the twelve names is replaced by its
  enharmonic name; when that is not valid either, or the library raises, the function logs
  an error and returns (\<open>None\<close> here).
\<close>

fun validate_notes :: "enharmonic \<Rightarrow> string list \<Rightarrow> string list option" where
  "validate_notes getEnharmonic [] = Some []"
| "validate_notes getEnharmonic (n # ns) =
     (if n \<notin> valid_note_names then
        (case getEnharmonic n of
           None \<Rightarrow> None
         | Some enharmonic_name \<Rightarrow>
             if enharmonic_name \<in> valid_note_names
             then map_option (\<lambda>rest. enharmonic_name # rest) (validate_notes getEnharmonic ns)
             else None)
      else map_option (\<lambda>rest. n # rest) (validate_notes getEnharmonic ns))"

text \<open>What the run prints or logs.\<close>

datatype report =
    NoWordsLoaded
  | InvalidNote
  | NoValidPhrases
  | BestPhrases "result list"

text \<open>
  decoder.py, lines 296 to 310: the dict \<open>unique_results\<close> keyed by the phrase text, then
  the values sorted by the phrase text.
\<close>

fun unique_by_phrase :: "result list \<Rightarrow> (string \<times> result) list \<Rightarrow> (string \<times> result) list" where
  "unique_by_phrase [] unique_results = unique_results"
| "unique_by_phrase (r # rs) unique_results =
     unique_by_phrase rs
       (case map_of unique_results (phrase_text r) of
          None \<Rightarrow> AList.update (phrase_text r) r unique_results
        | Some old \<Rightarrow>
            if num_words r < num_words old
            then AList.update (phrase_text r) r unique_results
            else unique_results)"

definition report_results :: "result list \<Rightarrow> report" where
  "report_results flat_results =
     (let unique_results = unique_by_phrase flat_results [] in
      if unique_results \<noteq> []
      then BestPhrases (sort_key phrase_text (map snd unique_results))
      else NoValidPhrases)"

text \<open>
  audiocipher\_decoder.py, lines 260 to 274: the key is (phrase, root, mode), and the
  records of minimal word count are kept, in dict order.
\<close>

fun ac_unique :: "result list \<Rightarrow> ((string \<times> string \<times> string) \<times> result) list
                    \<Rightarrow> ((string \<times> string \<times> string) \<times> result) list" where
  "ac_unique [] unique_results = unique_results"
| "ac_unique (r # rs) unique_results =
     (let key = (phrase_text r, decoded_root_note r, decoded_scale r) in
      ac_unique rs
        (case map_of unique_results key of
           None \<Rightarrow> AList.update key r unique_results
         | Some old \<Rightarrow>
             if num_words r < num_words old
             then AList.update key r unique_results
             else unique_results))"

definition ac_report_results :: "result list \<Rightarrow> report" where
  "ac_report_results flat_results =
     (let unique_results = ac_unique flat_results [] in
      if unique_results \<noteq> [] then
        (let min_num_words = Min (set (map (\<lambda>kr. num_words (snd kr)) unique_results)) in
         BestPhrases (filter (\<lambda>r. num_words r = min_num_words) (map snd unique_results)))
      else NoValidPhrases)"

text \<open>\<open>pool.map\<close> returns the results of the work items in the order of \<open>root_modes\<close>.\<close>

definition decode_tone_row_parallel ::
  "enharmonic \<Rightarrow> string \<Rightarrow> (string \<times> string \<times> mode_class) list \<Rightarrow> string set \<Rightarrow> string set \<Rightarrow> int
     \<Rightarrow> string set \<Rightarrow> string set \<Rightarrow> report" where
  "decode_tone_row_parallel getEnharmonic tone_row root_modes words_set prefixes_set
       max_word_length all_names english_words =
     (case validate_notes getEnharmonic (map upper (split_ws tone_row)) of
        None \<Rightarrow> InvalidNote
      | Some melody_notes \<Rightarrow>
          (let all_results =
                 map (\<lambda>root_mode_tuple.
                        process_root_mode getEnharmonic root_mode_tuple melody_notes words_set
                          prefixes_set max_word_length all_names english_words)
                     root_modes;
               flat_results = concat all_results
           in report_results flat_results))"

text \<open>
  \<open>decode_tone_row_parallel\<close> of audiocipher\_decoder.py: a note outside its 21 names ends
  the run, with no enharmonic replacement; the work items are the same.
\<close>

definition ac_valid_note_names :: "string set" where
  "ac_valid_note_names =
     {''C'', ''C#'', ''D-'', ''D'', ''D#'', ''E-'', ''E'', ''E#'', ''F'', ''F#'', ''G-'',
      ''G'', ''G#'', ''A-'', ''A'', ''A#'', ''B-'', ''B'', ''B#'', ''C-'', ''F-''}"

definition ac_decode_tone_row_parallel ::
  "enharmonic \<Rightarrow> string \<Rightarrow> (string \<times> string \<times> mode_class) list \<Rightarrow> string set \<Rightarrow> string set \<Rightarrow> int
     \<Rightarrow> string set \<Rightarrow> string set \<Rightarrow> report" where
  "ac_decode_tone_row_parallel getEnharmonic tone_row root_modes words_set prefixes_set
       max_word_length all_names english_words =
     (let melody_notes = map upper (split_ws tone_row) in
      if \<exists>n \<in> set melody_notes. n \<notin> ac_valid_note_names then InvalidNote
      else
        (let all_results =
               map (\<lambda>root_mode_tuple.
                      process_root_mode getEnharmonic root_mode_tuple melody_notes words_set
                        prefixes_set max_word_length all_names english_words)
                   root_modes;
             flat_results = concat all_results
         in ac_report_results flat_results))"

text \<open>
  The body of \<open>main\<close> for one tone row, after the two sets have been loaded. The dict
  \<open>modes\<close> of music21 classes is a parameter.
\<close>

definition build_prefix_set :: "string set \<Rightarrow> string set" where
  "build_prefix_set words = (\<Union>word \<in> words. (\<lambda>i. take i word) ` {1 ..< length word})"

definition max_len :: "string set \<Rightarrow> nat" where
  "max_len words = (if words = {} then 0 else Max (length ` words))"

definition root_notes :: "string list" where
  "root_notes =
     [''C'', ''C#'', ''D'', ''D#'', ''E'', ''F'', ''F#'', ''G'', ''G#'', ''A'', ''A#'', ''B'']"

definition main_decode ::
  "enharmonic \<Rightarrow> (string \<times> mode_class) list \<Rightarrow> string \<Rightarrow> string set \<Rightarrow> string set \<Rightarrow> report" where
  "main_decode getEnharmonic modes tone_row english_words all_names =
     (if english_words = {} \<and> all_names = {} then NoWordsLoaded
      else
        (let combined_words = english_words \<union> all_names;
             prefixes_set = build_prefix_set combined_words;
             max_word_length = int (max_len combined_words);
             root_modes = concat (map (\<lambda>root. map (\<lambda>(mode_name, mode_class).
                                         (root, mode_name, mode_class)) modes) root_notes)
         in decode_tone_row_parallel getEnharmonic tone_row root_modes english_words
              prefixes_set max_word_length all_names english_words))"

text \<open>The C major scale, as music21 names its seven degrees.\<close>

definition c_major :: scale where
  "c_major degree =
     (if 1 \<le> degree \<and> degree \<le> 7
      then Some ([''C'', ''D'', ''E'', ''F'', ''G'', ''A'', ''B''] ! (degree - 1))
      else None)"


text \<open>A small note-to-letters mapping and an enharmonic table with one entry.\<close>

definition demo_map :: "(string \<times> string) list" where
  "demo_map = [(''C'', ''ab''), (''D'', ''cd'')]"

definition demo_enh :: enharmonic where
  "demo_enh n = (if n = ''B#'' then Some ''C'' else None)"

text \<open>A mode table with the major mode only, built for the root C.\<close>

definition demo_modes :: "(string \<times> mode_class) list" where
  "demo_modes = [(''Major'', \<lambda>root. if root = ''C'' then Some c_major else None)]"


section \<open>Specification-side notions\<close>

text \<open>A decomposition of a string into members of a word set.\<close>

definition decomposes :: "string set \<Rightarrow> string \<Rightarrow> phrase \<Rightarrow> bool" where
  "decomposes W s ws \<longleftrightarrow> set ws \<subseteq> W \<and> concat ws = s"

text \<open>Every filled entry of the table is a decomposition of its prefix.\<close>

definition dp_sound :: "string \<Rightarrow> string set \<Rightarrow> dp_table \<Rightarrow> bool" where
  "dp_sound s W dp \<longleftrightarrow>
     (\<forall>k < length dp. \<forall>p. dp ! k = Some p \<longrightarrow> decomposes W (take k s) p)"


text \<open>The entry for the prefix of length \<open>k\<close> is filled with a phrase of minimal word count.\<close>

definition dp_best :: "string \<Rightarrow> string set \<Rightarrow> dp_table \<Rightarrow> nat \<Rightarrow> bool" where
  "dp_best s W dp k \<longleftrightarrow>
     (\<forall>ws. decomposes W (take k s) ws \<longrightarrow> (\<exists>p. dp ! k = Some p \<and> length p \<le> length ws))"

subsection \<open>One step of the inner loop\<close>

lemma slice_append: "j \<le> i \<Longrightarrow> take j s @ slice s j i = take i s"
  unfolding slice_def using take_add [of j "i - j" s] by simp

lemma seg_step_length [simp]: "length (seg_step s W P i j dp) = length dp"
  by (simp add: seg_step_def Let_def split: option.splits)

lemma seg_step_other: "k \<noteq> i \<Longrightarrow> seg_step s W P i j dp ! k = dp ! k"
  by (simp add: seg_step_def Let_def split: option.splits)

lemma seg_step_sound:
  assumes "dp_sound s W dp" and "j < i" and "i < length dp"
  shows "dp_sound s W (seg_step s W P i j dp)"
proof (cases "dp ! j")
  case None
  then show ?thesis using assms(1) by (simp add: seg_step_def)
next
  case (Some pj)
  have pj: "decomposes W (take j s) pj"
    using assms Some by (simp add: dp_sound_def)
  show ?thesis
  proof (cases "slice s j i \<in> W")
    case False
    then show ?thesis using assms(1) Some by (simp add: seg_step_def Let_def)
  next
    case True
    have new: "decomposes W (take i s) (pj @ [slice s j i])"
      using pj True assms(2) slice_append [of j i s] by (simp add: decomposes_def)
    have upd: "dp_sound s W (dp[i := Some (pj @ [slice s j i])])"
      unfolding dp_sound_def
    proof (intro allI impI)
      fix k p
      assume k: "k < length (dp[i := Some (pj @ [slice s j i])])"
        and p: "dp[i := Some (pj @ [slice s j i])] ! k = Some p"
      show "decomposes W (take k s) p"
      proof (cases "k = i")
        case True
        then show ?thesis using p new assms(3) by simp
      next
        case False
        then show ?thesis using p k assms(1) by (simp add: dp_sound_def)
      qed
    qed
    show ?thesis
      using True Some upd assms(1)
      by (simp add: seg_step_def Let_def split: option.splits)
  qed
qed

subsection \<open>The inner loop\<close>

lemma seg_fold_length [simp]:
  "length (fold (seg_step s W P i) js dp) = length dp"
  by (induction js arbitrary: dp) simp_all

lemma seg_fold_other:
  "k \<noteq> i \<Longrightarrow> fold (seg_step s W P i) js dp ! k = dp ! k"
  by (induction js arbitrary: dp) (simp_all add: seg_step_other)

lemma seg_fold_sound:
  assumes "dp_sound s W dp" and "\<forall>j \<in> set js. j < i" and "i < length dp"
  shows "dp_sound s W (fold (seg_step s W P i) js dp)"
  using assms
proof (induction js arbitrary: dp)
  case Nil
  then show ?case by simp
next
  case (Cons j js)
  have "dp_sound s W (seg_step s W P i j dp)"
    using Cons.prems by (intro seg_step_sound) simp_all
  then show ?case using Cons by simp
qed

lemma seg_range_below: "\<forall>j \<in> set (seg_range m i). j < i"
  by (simp add: seg_range_def)

lemma seg_inner_length [simp]: "length (seg_inner s W P m i dp) = length dp"
  by (simp add: seg_inner_def)

lemma seg_inner_other: "k \<noteq> i \<Longrightarrow> seg_inner s W P m i dp ! k = dp ! k"
  by (simp add: seg_inner_def seg_fold_other)

lemma seg_inner_sound:
  "dp_sound s W dp \<Longrightarrow> i < length dp \<Longrightarrow> dp_sound s W (seg_inner s W P m i dp)"
  unfolding seg_inner_def by (intro seg_fold_sound seg_range_below)

subsection \<open>The outer loop: every filled entry is a decomposition\<close>

lemma seg_outer_length [simp]:
  "length (fold (seg_inner s W P m) is dp) = length dp"
  by (induction "is" arbitrary: dp) simp_all

lemma seg_outer_sound:
  assumes "dp_sound s W dp" and "\<forall>i \<in> set is. i < length dp"
  shows "dp_sound s W (fold (seg_inner s W P m) is dp)"
  using assms
proof (induction "is" arbitrary: dp)
  case Nil
  then show ?case by simp
next
  case (Cons i "is")
  have "dp_sound s W (seg_inner s W P m i dp)"
    using Cons.prems by (intro seg_inner_sound) simp_all
  then show ?case using Cons by simp
qed

lemma dp_init_sound: "dp_sound s W ((replicate (Suc n) None)[0 := Some []])"
  by (auto simp: dp_sound_def decomposes_def nth_list_update nth_Cons split: nat.splits)

lemma seg_table_length [simp]: "length (seg_table s W P m) = Suc (length s)"
  by (simp add: seg_table_def Let_def)

lemma seg_table_sound: "dp_sound s W (seg_table s W P m)"
  unfolding seg_table_def Let_def
proof (rule seg_outer_sound)
  show "dp_sound s W ((replicate (length s + 1) None)[0 := Some []])"
    using dp_init_sound [of s W "length s"] by simp
  show "\<forall>i \<in> set [1 ..< length s + 1].
          i < length ((replicate (length s + 1) None)[0 := Some []])"
    by auto
qed

lemma segment_decomposes:
  "segment_into_words s W P m = Some p \<Longrightarrow> decomposes W s p"
proof -
  assume "segment_into_words s W P m = Some p"
  then have "seg_table s W P m ! length s = Some p"
    by (simp add: segment_into_words_def)
  moreover have "length s < length (seg_table s W P m)" by simp
  ultimately have "decomposes W (take (length s) s) p"
    using seg_table_sound [of s W P m] unfolding dp_sound_def by blast
  then show ?thesis by simp
qed

subsection \<open>The inner loop keeps the shortest phrase seen\<close>

lemma seg_step_keeps:
  assumes "i < length dp" and "dp ! i = Some p"
  shows "\<exists>p'. seg_step s W P i j dp ! i = Some p' \<and> length p' \<le> length p"
  using assms by (auto simp: seg_step_def Let_def split: option.splits)

lemma seg_step_improves:
  assumes "i < length dp" and "dp ! j = Some pj" and "slice s j i \<in> W"
  shows "\<exists>p'. seg_step s W P i j dp ! i = Some p' \<and> length p' \<le> length pj + 1"
  using assms by (auto simp: seg_step_def Let_def split: option.splits)

lemma seg_fold_keeps:
  assumes "i < length dp" and "dp ! i = Some p"
  shows "\<exists>p'. fold (seg_step s W P i) js dp ! i = Some p' \<and> length p' \<le> length p"
  using assms
proof (induction js arbitrary: dp p)
  case Nil
  then show ?case by simp
next
  case (Cons j js)
  obtain q where q: "seg_step s W P i j dp ! i = Some q" "length q \<le> length p"
    using seg_step_keeps [OF Cons.prems] by blast
  have "i < length (seg_step s W P i j dp)" using Cons.prems(1) by simp
  from Cons.IH [OF this q(1)] q(2) show ?case by fastforce
qed

lemma seg_fold_improves:
  assumes "i < length dp" and "\<forall>j' \<in> set js. j' < i" and "j \<in> set js"
    and "dp ! j = Some pj" and "slice s j i \<in> W"
  shows "\<exists>p'. fold (seg_step s W P i) js dp ! i = Some p' \<and> length p' \<le> length pj + 1"
  using assms
proof (induction js arbitrary: dp)
  case Nil
  then show ?case by simp
next
  case (Cons j0 js)
  have len: "i < length (seg_step s W P i j0 dp)" using Cons.prems(1) by simp
  show ?case
  proof (cases "j0 = j")
    case True
    obtain q where q: "seg_step s W P i j dp ! i = Some q" "length q \<le> length pj + 1"
      using seg_step_improves [OF Cons.prems(1) Cons.prems(4) Cons.prems(5)] by blast
    from seg_fold_keeps [OF len [unfolded True] q(1)] q(2) True show ?thesis by fastforce
  next
    case False
    then have mem: "j \<in> set js" using Cons.prems(3) by simp
    have "j \<noteq> i" using Cons.prems(2,3) by auto
    then have same: "seg_step s W P i j0 dp ! j = Some pj"
      using Cons.prems(4) by (simp add: seg_step_other)
    have below: "\<forall>j' \<in> set js. j' < i" using Cons.prems(2) by simp
    from Cons.IH [OF len below mem same Cons.prems(5)] show ?thesis by simp
  qed
qed

subsection \<open>The last word of a decomposition\<close>

lemma concat_drop_empty: "concat (filter (\<lambda>w. w \<noteq> []) ws) = concat ws"
  by (induction ws) simp_all

lemma last_word:
  assumes "decomposes W t ws" and "t \<noteq> []"
  shows "\<exists>us w. w \<in> W \<and> w \<noteq> [] \<and> set us \<subseteq> W \<and> concat us @ w = t \<and> length us + 1 \<le> length ws"
proof -
  let ?vs = "filter (\<lambda>w. w \<noteq> []) ws"
  have cc: "concat ?vs = t"
    using assms(1) by (simp add: decomposes_def concat_drop_empty)
  then have ne: "?vs \<noteq> []" using assms(2) by auto
  then have split: "?vs = butlast ?vs @ [last ?vs]" by simp
  have lastin: "last ?vs \<in> set ?vs" using ne by (rule last_in_set)
  have "set (butlast ?vs) \<subseteq> set ?vs" by (meson in_set_butlastD subsetI)
  then have sub: "set (butlast ?vs) \<subseteq> W" using assms(1) by (auto simp: decomposes_def)
  have "last ?vs \<in> {w \<in> set ws. w \<noteq> []}" using lastin by (simp only: set_filter)
  then have w: "last ?vs \<in> W" "last ?vs \<noteq> []"
    using assms(1) unfolding decomposes_def by blast+
  have "concat (butlast ?vs) @ last ?vs = concat (butlast ?vs @ [last ?vs])" by simp
  then have c: "concat (butlast ?vs) @ last ?vs = t" using split cc by simp
  have "length (butlast ?vs) + 1 = length ?vs" using ne by (simp add: Suc_pred)
  moreover have "length ?vs \<le> length ws" by simp
  ultimately have l: "length (butlast ?vs) + 1 \<le> length ws" by linarith
  from w sub c l show ?thesis by blast
qed

subsection \<open>The outer loop fills every reachable entry with a shortest phrase\<close>

lemma dp_best_cong: "dp' ! k = dp ! k \<Longrightarrow> dp_best s W dp' k = dp_best s W dp k"
  by (simp add: dp_best_def)

lemma seg_inner_best:
  assumes i: "0 < i" "i \<le> length s" and len: "i < length dp"
    and prev: "\<forall>k < i. dp_best s W dp k"
    and bound: "\<forall>w \<in> W. int (length w) \<le> m"
  shows "dp_best s W (seg_inner s W P m i dp) i"
  unfolding dp_best_def
proof (intro allI impI)
  fix ws
  assume d: "decomposes W (take i s) ws"
  have "take i s \<noteq> []" using i by auto
  from last_word [OF d this] obtain us w where
    w: "w \<in> W" "w \<noteq> []" and us: "set us \<subseteq> W"
    and cat: "concat us @ w = take i s" and shorter: "length us + 1 \<le> length ws"
    by blast
  define j where "j = i - length w"
  have "length (concat us @ w) = i" using cat i by simp
  then have li: "length (concat us) + length w = i" by simp
  then have j: "j < i" "j = length (concat us)" "i - j = length w"
    using w(2) by (auto simp: j_def)
  have "take j (concat us @ w) = concat us" using j(2) by simp
  then have "take j (take i s) = concat us" using cat by simp
  then have pre: "take j s = concat us" using j(1) by (simp add: min_def)
  have "drop j (concat us @ w) = w" using j(2) by simp
  then have "drop j (take i s) = w" using cat by simp
  then have word: "slice s j i = w" by (simp add: slice_def drop_take)
  have "decomposes W (take j s) us" using us pre by (simp add: decomposes_def)
  then obtain pj where pj: "dp ! j = Some pj" "length pj \<le> length us"
    using prev j(1) unfolding dp_best_def by blast
  have "int (length w) \<le> m" using bound w(1) by blast
  then have "nat (max 0 (int i - m)) \<le> j" using j(3) j(1) by linarith
  then have mem: "j \<in> set (seg_range m i)" using j(1) by (simp add: seg_range_def)
  have inW: "slice s j i \<in> W" using word w(1) by simp
  from seg_fold_improves [OF len seg_range_below mem pj(1) inW]
  obtain p' where "seg_inner s W P m i dp ! i = Some p'" "length p' \<le> length pj + 1"
    unfolding seg_inner_def by blast
  then show "\<exists>p. seg_inner s W P m i dp ! i = Some p \<and> length p \<le> length ws"
    using pj(2) shorter by auto
qed

lemma dp_init_best: "dp_best s W ((replicate (Suc n) None)[0 := Some []]) 0"
  by (simp add: dp_best_def)

lemma seg_outer_best:
  assumes "\<forall>w \<in> W. int (length w) \<le> m" and "n \<le> length s"
  shows "\<forall>k \<le> n. dp_best s W
           (fold (seg_inner s W P m) [1 ..< Suc n] ((replicate (Suc (length s)) None)[0 := Some []])) k"
  using assms(2)
proof (induction n)
  case 0
  then show ?case using dp_init_best [of s W "length s"] by simp
next
  case (Suc n)
  let ?init = "(replicate (Suc (length s)) None)[0 := Some []]"
  let ?tab = "fold (seg_inner s W P m) [1 ..< Suc n] ?init"
  have ih: "\<forall>k \<le> n. dp_best s W ?tab k" using Suc by simp
  have range: "[1 ..< Suc (Suc n)] = [1 ..< Suc n] @ [Suc n]"
    by (rule upt_Suc_append) simp
  have unfold:
    "fold (seg_inner s W P m) [1 ..< Suc (Suc n)] ?init = seg_inner s W P m (Suc n) ?tab"
    unfolding range by (simp only: fold_append fold_simps comp_apply id_apply)
  have len: "Suc n < length ?tab" using Suc.prems by simp
  have new: "dp_best s W (seg_inner s W P m (Suc n) ?tab) (Suc n)"
  proof (rule seg_inner_best)
    show "0 < Suc n" by simp
    show "Suc n \<le> length s" using Suc.prems .
    show "Suc n < length ?tab" using len .
    show "\<forall>k < Suc n. dp_best s W ?tab k" using ih by (simp add: less_Suc_eq_le)
    show "\<forall>w \<in> W. int (length w) \<le> m" using assms(1) .
  qed
  have old: "dp_best s W (seg_inner s W P m (Suc n) ?tab) k" if "k \<le> n" for k
  proof -
    have "k \<noteq> Suc n" using that by simp
    then have "seg_inner s W P m (Suc n) ?tab ! k = ?tab ! k" by (rule seg_inner_other)
    then have "dp_best s W (seg_inner s W P m (Suc n) ?tab) k = dp_best s W ?tab k"
      by (rule dp_best_cong)
    then show ?thesis using ih that by blast
  qed
  show ?case
    unfolding unfold using new old by (auto simp: le_Suc_eq)
qed

lemma segment_minimal:
  assumes "\<forall>w \<in> W. int (length w) \<le> m" and "decomposes W s ws"
  shows "\<exists>p. segment_into_words s W P m = Some p \<and> length p \<le> length ws"
proof -
  have "dp_best s W (seg_table s W P m) (length s)"
    using seg_outer_best [OF assms(1), of "length s" s P]
    by (simp add: seg_table_def Let_def)
  then show ?thesis
    using assms(2) by (simp add: dp_best_def segment_into_words_def)
qed

lemma max_len_bound:
  assumes "finite W"
  shows "\<forall>w \<in> W. int (length w) \<le> int (max_len W)"
proof
  fix w assume "w \<in> W"
  then have "length w \<le> Max (length ` W)" using assms by simp
  then show "int (length w) \<le> int (max_len W)"
    using \<open>w \<in> W\<close> by (auto simp: max_len_def)
qed


section \<open>Melody expander: the Cartesian product\<close>

lemma possible_letters_eq:
  "possible_letters note_to_letters getEnharmonic melody acc =
     (if \<forall>n \<in> set melody. letters_for note_to_letters getEnharmonic n \<noteq> []
      then Some (acc @ map (letters_for note_to_letters getEnharmonic) melody)
      else None)"
  by (induction melody arbitrary: acc) (simp_all add: Let_def)

lemma decode_melody_eq:
  "decode_melody note_to_letters getEnharmonic melody =
     (if \<forall>n \<in> set melody. letters_for note_to_letters getEnharmonic n \<noteq> []
      then itertools_product (map (letters_for note_to_letters getEnharmonic) melody)
      else [])"
  by (simp add: decode_melody_def possible_letters_eq)

lemma length_block: "length (concat (map (\<lambda>x. map (\<lambda>rest. x # rest) ps) xs)) = length xs * length ps"
  by (induction xs) simp_all

lemma length_itertools_product:
  "length (itertools_product xss) = prod_list (map length xss)"
  by (induction xss) (simp_all add: length_block)

lemma set_itertools_product:
  "c \<in> set (itertools_product xss) \<longleftrightarrow> list_all2 (\<lambda>x xs. x \<in> set xs) c xss"
proof (induction xss arbitrary: c)
  case Nil
  then show ?case by simp
next
  case (Cons xs xss)
  show ?case
  proof (cases c)
    case Nil
    then show ?thesis by auto
  next
    case (Cons x rest)
    then show ?thesis using Cons.IH by auto
  qed
qed

lemma block_sorted:
  fixes xs :: "('a::linorder) list"
  assumes "sorted_wrt (<) xs" and "sorted_wrt (<) ps"
  shows "sorted_wrt (<) (concat (map (\<lambda>x. map (\<lambda>rest. x # rest) ps) xs))"
  using assms(1)
proof (induction xs)
  case Nil
  then show ?case by simp
next
  case (Cons x xs)
  have head: "sorted_wrt (<) (map (\<lambda>rest. x # rest) ps)"
    using assms(2) by (simp add: sorted_wrt_map)
  have tail: "sorted_wrt (<) (concat (map (\<lambda>x. map (\<lambda>rest. x # rest) ps) xs))"
    using Cons by simp
  have cross: "\<forall>a \<in> set (map (\<lambda>rest. x # rest) ps).
                 \<forall>b \<in> set (concat (map (\<lambda>x. map (\<lambda>rest. x # rest) ps) xs)). a < b"
    using Cons.prems by auto
  show ?case
    using head tail cross by (simp only: list.map concat.simps sorted_wrt_append)
qed

lemma sorted_itertools_product:
  fixes xss :: "('a::linorder) list list"
  assumes "\<forall>xs \<in> set xss. sorted_wrt (<) xs"
  shows "sorted_wrt (<) (itertools_product xss)"
  using assms
proof (induction xss)
  case Nil
  then show ?case by simp
next
  case (Cons xs xss)
  have "sorted_wrt (<) (itertools_product xss)" using Cons by simp
  moreover have "sorted_wrt (<) xs" using Cons.prems by simp
  ultimately show ?case by (simp add: block_sorted)
qed

text \<open>
  Claim C5. For every note-to-letters mapping and every melody: when some note of the
  melody has an empty letter list after the direct lookup and the enharmonic fallback,
  \<open>decode_melody\<close> returns the empty sequence, with no error. Otherwise it yields
  exactly the Cartesian product of the letter lists of the positions: the product of
  their lengths many candidates, each as long as the melody, each position drawn from
  its letter list and every such string present; when the letter lists are in
  alphabetical order the candidates come in (strict) lexicographic order.
\<close>

theorem decode_melody_cartesian_product:
  fixes note_to_letters getEnharmonic melody
  defines "lf \<equiv> letters_for note_to_letters getEnharmonic"
    and "out \<equiv> decode_melody note_to_letters getEnharmonic melody"
  shows "((\<exists>n \<in> set melody. lf n = []) \<longrightarrow> out = [])
       \<and> ((\<forall>n \<in> set melody. lf n \<noteq> []) \<longrightarrow>
            length out = prod_list (map (\<lambda>n. length (lf n)) melody)
          \<and> (\<forall>c \<in> set out. length c = length melody)
          \<and> set out = {c. length c = length melody \<and> (\<forall>i < length melody. c ! i \<in> set (lf (melody ! i)))}
          \<and> ((\<forall>n \<in> set melody. sorted_wrt (<) (lf n)) \<longrightarrow> sorted_wrt (<) out))"
proof (intro conjI impI)
  assume "\<exists>n \<in> set melody. lf n = []"
  then show "out = []" unfolding out_def lf_def by (auto simp: decode_melody_eq)
next
  assume ok: "\<forall>n \<in> set melody. lf n \<noteq> []"
  then have out: "out = itertools_product (map lf melody)"
    unfolding out_def lf_def by (simp add: decode_melody_eq)
  show "length out = prod_list (map (\<lambda>n. length (lf n)) melody)"
    unfolding out by (simp add: length_itertools_product comp_def)
  have mem: "c \<in> set out \<longleftrightarrow>
      length c = length melody \<and> (\<forall>i < length melody. c ! i \<in> set (lf (melody ! i)))" for c
    unfolding out set_itertools_product by (auto simp: list_all2_conv_all_nth)
  show "\<forall>c \<in> set out. length c = length melody" using mem by blast
  show "set out = {c. length c = length melody \<and> (\<forall>i < length melody. c ! i \<in> set (lf (melody ! i)))}"
    using mem by blast
  show "sorted_wrt (<) out" if "\<forall>n \<in> set melody. sorted_wrt (<) (lf n)"
    unfolding out using that by (intro sorted_itertools_product) simp
qed


theorem decode_melody_cartesian_product_witness:
  "decode_melody demo_map demo_enh [''B#'', ''D''] = [''ac'', ''ad'', ''bc'', ''bd'']
   \<and> length (decode_melody demo_map demo_enh [''B#'', ''D'']) = 2 * 2
   \<and> sorted_wrt (<) (decode_melody demo_map demo_enh [''B#'', ''D''])
   \<and> decode_melody demo_map demo_enh [''C'', ''X''] = []"
proof -
  have lf: "letters_for demo_map demo_enh ''B#'' = ''ab''" "letters_for demo_map demo_enh ''D'' = ''cd''"
    "letters_for demo_map demo_enh ''X'' = []"
    by (simp_all add: letters_for_def dict_get_def demo_map_def demo_enh_def)
  have ok: "\<forall>n \<in> set [''B#'', ''D'']. letters_for demo_map demo_enh n \<noteq> []"
    using lf by simp
  have srt: "\<forall>n \<in> set [''B#'', ''D'']. sorted_wrt (<) (letters_for demo_map demo_enh n)"
    using lf by simp
  have bad: "\<exists>n \<in> set [''C'', ''X'']. letters_for demo_map demo_enh n = []"
    using lf by simp
  have val: "decode_melody demo_map demo_enh [''B#'', ''D''] = [''ac'', ''ad'', ''bc'', ''bd'']"
    by code_simp
  from decode_melody_cartesian_product [of "[''B#'', ''D'']" demo_map demo_enh] ok srt
  have "length (decode_melody demo_map demo_enh [''B#'', ''D'']) = 2 * 2
      \<and> sorted_wrt (<) (decode_melody demo_map demo_enh [''B#'', ''D''])"
    using lf by simp
  moreover from decode_melody_cartesian_product [of "[''C'', ''X'']" demo_map demo_enh] bad
  have "decode_melody demo_map demo_enh [''C'', ''X''] = []" by blast
  ultimately show ?thesis using val by blast
qed


section \<open>Scale mapper: the letter groups\<close>

lemma degrees_list: "degrees = [1, 2, 3, 4, 5, 6, 7]"
  unfolding degrees_def by (simp add: upt_rec)

lemma create_loop_step:
  assumes "sc (degrees ! (idx mod degree_count)) = Some (nm (degrees ! (idx mod degree_count)))"
    and "length mapping < 26" and "idx < 26"
  shows "create_loop sc idx mapping =
         create_loop sc (idx + 1)
           (AList.update (letters ! idx) (nm (degrees ! (idx mod degree_count))) mapping)"
  using assms by (subst create_loop.simps) (simp add: letters_def)

lemma create_loop_done:
  "\<not> length mapping < 26 \<Longrightarrow> create_loop sc idx mapping = Inr mapping"
  by (subst create_loop.simps) simp

lemma reverse_loop_Cons:
  "reverse_loop ((letter, pitch_name) # rest) note_to_letters =
     reverse_loop rest
       (AList.map_entry pitch_name (\<lambda>ls. ls @ [letter])
          (if map_of note_to_letters pitch_name = None
           then AList.update pitch_name [] note_to_letters
           else note_to_letters))"
  by (simp add: Let_def)

lemma create_mapping_value:
  assumes "\<forall>d \<in> set degrees. sc d = Some (nm d)"
  shows "create_letter_note_mapping sc = Inr
    [(CHR ''a'', nm 1), (CHR ''b'', nm 2), (CHR ''c'', nm 3), (CHR ''d'', nm 4), (CHR ''e'', nm 5),
     (CHR ''f'', nm 6), (CHR ''g'', nm 7), (CHR ''h'', nm 1), (CHR ''i'', nm 2), (CHR ''j'', nm 3),
     (CHR ''k'', nm 4), (CHR ''l'', nm 5), (CHR ''m'', nm 6), (CHR ''n'', nm 7), (CHR ''o'', nm 1),
     (CHR ''p'', nm 2), (CHR ''q'', nm 3), (CHR ''r'', nm 4), (CHR ''s'', nm 5), (CHR ''t'', nm 6),
     (CHR ''u'', nm 7), (CHR ''v'', nm 1), (CHR ''w'', nm 2), (CHR ''x'', nm 3), (CHR ''y'', nm 4),
     (CHR ''z'', nm 5)]"
proof -
  have step: "create_loop sc idx mapping =
      create_loop sc (idx + 1)
        (AList.update (letters ! idx) (nm (degrees ! (idx mod degree_count))) mapping)"
    if "length mapping < 26" and "idx < 26" for idx mapping
  proof -
    have "degrees ! (idx mod degree_count) \<in> set degrees"
      by (simp add: degree_count_def degrees_def del: upt_Suc)
    then have "sc (degrees ! (idx mod degree_count)) = Some (nm (degrees ! (idx mod degree_count)))"
      using assms by blast
    then show ?thesis using that by (rule create_loop_step)
  qed
  show ?thesis
    unfolding create_letter_note_mapping_def
    by (simp add: step create_loop_done degrees_list degree_count_def letters_def)
qed

lemma reverse_mapping_value:
  assumes "distinct [n1, n2, n3, n4, n5, n6, n7]"
  shows "reverse_mapping
    [(CHR ''a'', n1), (CHR ''b'', n2), (CHR ''c'', n3), (CHR ''d'', n4), (CHR ''e'', n5),
     (CHR ''f'', n6), (CHR ''g'', n7), (CHR ''h'', n1), (CHR ''i'', n2), (CHR ''j'', n3),
     (CHR ''k'', n4), (CHR ''l'', n5), (CHR ''m'', n6), (CHR ''n'', n7), (CHR ''o'', n1),
     (CHR ''p'', n2), (CHR ''q'', n3), (CHR ''r'', n4), (CHR ''s'', n5), (CHR ''t'', n6),
     (CHR ''u'', n7), (CHR ''v'', n1), (CHR ''w'', n2), (CHR ''x'', n3), (CHR ''y'', n4),
     (CHR ''z'', n5)]
   = [(n1, ''ahov''), (n2, ''bipw''), (n3, ''cjqx''), (n4, ''dkry''), (n5, ''elsz''),
      (n6, ''fmt''), (n7, ''gnu'')]"
proof -
  have ne: "n1 \<noteq> n2" "n1 \<noteq> n3" "n1 \<noteq> n4" "n1 \<noteq> n5" "n1 \<noteq> n6" "n1 \<noteq> n7"
    "n2 \<noteq> n1" "n2 \<noteq> n3" "n2 \<noteq> n4" "n2 \<noteq> n5" "n2 \<noteq> n6" "n2 \<noteq> n7"
    "n3 \<noteq> n1" "n3 \<noteq> n2" "n3 \<noteq> n4" "n3 \<noteq> n5" "n3 \<noteq> n6" "n3 \<noteq> n7"
    "n4 \<noteq> n1" "n4 \<noteq> n2" "n4 \<noteq> n3" "n4 \<noteq> n5" "n4 \<noteq> n6" "n4 \<noteq> n7"
    "n5 \<noteq> n1" "n5 \<noteq> n2" "n5 \<noteq> n3" "n5 \<noteq> n4" "n5 \<noteq> n6" "n5 \<noteq> n7"
    "n6 \<noteq> n1" "n6 \<noteq> n2" "n6 \<noteq> n3" "n6 \<noteq> n4" "n6 \<noteq> n5" "n6 \<noteq> n7"
    "n7 \<noteq> n1" "n7 \<noteq> n2" "n7 \<noteq> n3" "n7 \<noteq> n4" "n7 \<noteq> n5" "n7 \<noteq> n6"
    using assms by auto
  show ?thesis
    unfolding reverse_mapping_def
    by (simp add: reverse_loop_Cons ne del: reverse_loop.simps(2))
qed

text \<open>
  Claim C6. For every scale whose seven degrees yield a pitch name each, the names pairwise
  distinct (as for every root and mode of the catalog), \<open>create_letter_note_mapping\<close>
  assigns all 26 lowercase letters, and \<open>reverse_mapping\<close> of the result has exactly
  7 keys; every letter group has 3 or 4 letters, the sizes sum to 26, and exactly 5 groups
  have 4 letters and 2 have 3.
\<close>

theorem letter_groups_of_scale:
  assumes "\<forall>d \<in> set degrees. sc d \<noteq> None" and "distinct (map sc degrees)"
  shows "\<exists>mapping note_to_letters.
           create_letter_note_mapping sc = Inr mapping
         \<and> map fst mapping = letters
         \<and> reverse_mapping mapping = note_to_letters
         \<and> length note_to_letters = 7
         \<and> distinct (map fst note_to_letters)
         \<and> (\<forall>ls \<in> set (map snd note_to_letters). length ls = 3 \<or> length ls = 4)
         \<and> sum_list (map (\<lambda>kl. length (snd kl)) note_to_letters) = 26
         \<and> length (filter (\<lambda>kl. length (snd kl) = 4) note_to_letters) = 5
         \<and> length (filter (\<lambda>kl. length (snd kl) = 3) note_to_letters) = 2"
proof -
  define nm where "nm d = the (sc d)" for d
  have sc: "\<forall>d \<in> set degrees. sc d = Some (nm d)"
    using assms(1) by (auto simp: nm_def)
  then have eq: "map sc degrees = map (\<lambda>d. Some (nm d)) degrees" by simp
  have "distinct (map (\<lambda>d. Some (nm d)) degrees)" using assms(2) unfolding eq .
  then have names: "distinct [nm 1, nm 2, nm 3, nm 4, nm 5, nm 6, nm 7]"
    by (simp add: degrees_list)
  note m = create_mapping_value [OF sc]
  note r = reverse_mapping_value [OF names]
  show ?thesis
    unfolding m
    apply (intro exI conjI)
            apply (rule refl)
           apply (simp add: letters_def)
          apply (rule r)
    using names by simp_all
qed

theorem letter_groups_of_scale_witness:
  "distinct (map c_major degrees)
   \<and> create_letter_note_mapping c_major = Inr
       [(CHR ''a'', ''C''), (CHR ''b'', ''D''), (CHR ''c'', ''E''), (CHR ''d'', ''F''),
        (CHR ''e'', ''G''), (CHR ''f'', ''A''), (CHR ''g'', ''B''), (CHR ''h'', ''C''),
        (CHR ''i'', ''D''), (CHR ''j'', ''E''), (CHR ''k'', ''F''), (CHR ''l'', ''G''),
        (CHR ''m'', ''A''), (CHR ''n'', ''B''), (CHR ''o'', ''C''), (CHR ''p'', ''D''),
        (CHR ''q'', ''E''), (CHR ''r'', ''F''), (CHR ''s'', ''G''), (CHR ''t'', ''A''),
        (CHR ''u'', ''B''), (CHR ''v'', ''C''), (CHR ''w'', ''D''), (CHR ''x'', ''E''),
        (CHR ''y'', ''F''), (CHR ''z'', ''G'')]
   \<and> (\<exists>mapping. create_letter_note_mapping c_major = Inr mapping
         \<and> length (reverse_mapping mapping) = 7
         \<and> length (filter (\<lambda>kl. length (snd kl) = 4) (reverse_mapping mapping)) = 5
         \<and> length (filter (\<lambda>kl. length (snd kl) = 3) (reverse_mapping mapping)) = 2)"
proof -
  have h1: "\<forall>d \<in> set degrees. c_major d \<noteq> None"
    by (simp add: degrees_list c_major_def)
  have h2: "distinct (map c_major degrees)"
    by (simp add: degrees_list c_major_def)
  have v: "create_letter_note_mapping c_major = Inr
       [(CHR ''a'', ''C''), (CHR ''b'', ''D''), (CHR ''c'', ''E''), (CHR ''d'', ''F''),
        (CHR ''e'', ''G''), (CHR ''f'', ''A''), (CHR ''g'', ''B''), (CHR ''h'', ''C''),
        (CHR ''i'', ''D''), (CHR ''j'', ''E''), (CHR ''k'', ''F''), (CHR ''l'', ''G''),
        (CHR ''m'', ''A''), (CHR ''n'', ''B''), (CHR ''o'', ''C''), (CHR ''p'', ''D''),
        (CHR ''q'', ''E''), (CHR ''r'', ''F''), (CHR ''s'', ''G''), (CHR ''t'', ''A''),
        (CHR ''u'', ''B''), (CHR ''v'', ''C''), (CHR ''w'', ''D''), (CHR ''x'', ''E''),
        (CHR ''y'', ''F''), (CHR ''z'', ''G'')]"
    by code_simp
  from letter_groups_of_scale [OF h1 h2]
  have "\<exists>mapping. create_letter_note_mapping c_major = Inr mapping
         \<and> length (reverse_mapping mapping) = 7
         \<and> length (filter (\<lambda>kl. length (snd kl) = 4) (reverse_mapping mapping)) = 5
         \<and> length (filter (\<lambda>kl. length (snd kl) = 3) (reverse_mapping mapping)) = 2"
    by blast
  with h2 v show ?thesis by blast
qed


section \<open>Search orchestrator\<close>

subsection \<open>The empty tone row\<close>

lemma segment_empty: "segment_into_words [] W P m = Some []"
  by (simp add: segment_into_words_def seg_table_def)

lemma process_empty_melody:
  "process_root_mode getEnharmonic root_mode_tuple [] words_set prefixes_set max_word_length
     all_names english_words = []"
  by (simp add: process_root_mode_def decode_melody_def segment_empty Let_def
      split: prod.splits option.splits sum.splits)

lemma concat_all_empty: "concat (map (\<lambda>x. []) xs) = []"
  by (induction xs) simp_all

text \<open>
  Claim C4. The claim is that the empty melody aborts the run with a fatal precondition
  error before any work item is dispatched. In \<open>decode_tone_row_parallel\<close>, of decoder.py
  and of audiocipher\_decoder.py, the validation loop passes on the empty list, every work item is dispatched and yields no record (its one
  candidate is the empty string, whose phrase is empty and is dropped), and the run reports
  that no valid phrases were found.
\<close>

theorem empty_tone_row_reports_no_phrases:
  "decode_tone_row_parallel getEnharmonic '''' root_modes words_set prefixes_set max_word_length
     all_names english_words = NoValidPhrases
   \<and> ac_decode_tone_row_parallel getEnharmonic '''' root_modes words_set prefixes_set
       max_word_length all_names english_words = NoValidPhrases"
  by (simp add: decode_tone_row_parallel_def ac_decode_tone_row_parallel_def split_ws_def
      process_empty_melody report_results_def ac_report_results_def concat_all_empty)

subsection \<open>Which words can be reported\<close>

lemma process_root_mode_words:
  assumes "r \<in> set (process_root_mode getEnharmonic root_mode_tuple melody_notes words_set
                       prefixes_set max_word_length all_names english_words)"
  shows "\<exists>p. p \<noteq> [] \<and> set p \<subseteq> words_set \<and> phrase_text r = join_space p \<and> num_words r = length p"
proof -
  obtain decode_root decode_mode_name decode_mode_class
    where t: "root_mode_tuple = (decode_root, decode_mode_name, decode_mode_class)"
    by (cases root_mode_tuple) auto
  have "\<exists>decoded_chars p.
          Some p = segment_into_words decoded_chars words_set prefixes_set max_word_length
        \<and> p \<noteq> []
        \<and> r = \<lparr>phrase_text = join_space p, decoded_root_note = decode_root,
                 decoded_scale = decode_mode_name, num_words = length p\<rparr>"
    using assms unfolding process_root_mode_def t
    by (auto simp: Let_def split: option.splits sum.splits if_splits)
  then obtain decoded_chars p where
    seg: "segment_into_words decoded_chars words_set prefixes_set max_word_length = Some p"
    and ne: "p \<noteq> []"
    and r: "r = \<lparr>phrase_text = join_space p, decoded_root_note = decode_root,
                 decoded_scale = decode_mode_name, num_words = length p\<rparr>"
    by metis
  have "set p \<subseteq> words_set"
    using segment_decomposes [OF seg] by (simp add: decomposes_def)
  then show ?thesis using ne r by auto
qed

lemma set_update_subset: "set (AList.update k v ps) \<subseteq> insert (k, v) (set ps)"
  by (induction ps) auto

lemma unique_by_phrase_subset:
  "snd ` set (unique_by_phrase rs u) \<subseteq> set rs \<union> snd ` set u"
proof (induction rs arbitrary: u)
  case Nil
  then show ?case by simp
next
  case (Cons r rs)
  define u' where "u' = (case map_of u (phrase_text r) of
              None \<Rightarrow> AList.update (phrase_text r) r u
            | Some old \<Rightarrow> if num_words r < num_words old
                          then AList.update (phrase_text r) r u else u)"
  have "set u' \<subseteq> insert (phrase_text r, r) (set u)"
    unfolding u'_def using set_update_subset [of "phrase_text r" r u]
    by (auto split: option.splits)
  then have a: "snd ` set u' \<subseteq> insert r (snd ` set u)" by force
  have b: "snd ` set (unique_by_phrase rs u') \<subseteq> set rs \<union> snd ` set u'"
    by (rule Cons.IH)
  have eq: "unique_by_phrase (r # rs) u = unique_by_phrase rs u'"
    by (simp add: u'_def)
  have "snd ` set (unique_by_phrase rs u') \<subseteq> insert r (set rs) \<union> snd ` set u"
    using a b by blast
  then show ?case unfolding eq by simp
qed

lemma report_results_subset:
  assumes "report_results flat_results = BestPhrases out"
  shows "set out \<subseteq> set flat_results"
proof -
  have "out = sort_key phrase_text (map snd (unique_by_phrase flat_results []))"
    using assms by (simp add: report_results_def Let_def split: if_splits)
  then have "set out = snd ` set (unique_by_phrase flat_results [])" by simp
  then show ?thesis using unique_by_phrase_subset [of flat_results "[]"] by simp
qed

lemma reported_words_are_english_words:
  assumes "main_decode getEnharmonic modes tone_row english_words all_names = BestPhrases out"
    and "r \<in> set out"
  shows "\<exists>p. p \<noteq> [] \<and> set p \<subseteq> english_words \<and> phrase_text r = join_space p"
proof -
  from assms(1) obtain melody_notes root_modes prefixes_set max_word_length where
    rep: "report_results (concat (map (\<lambda>root_mode_tuple.
            process_root_mode getEnharmonic root_mode_tuple melody_notes english_words
              prefixes_set max_word_length all_names english_words) root_modes)) = BestPhrases out"
    unfolding main_decode_def decode_tone_row_parallel_def
    by (auto simp: Let_def split: if_splits option.splits)
  from report_results_subset [OF rep] assms(2) obtain root_mode_tuple where
    "r \<in> set (process_root_mode getEnharmonic root_mode_tuple melody_notes english_words
                 prefixes_set max_word_length all_names english_words)"
    by auto
  from process_root_mode_words [OF this] show ?thesis by blast
qed

subsection \<open>Names in the orchestrated run\<close>

text \<open>
  Claim C3. The claim is that the orchestrated run segments over the union of the English
  words and the names, so that a candidate equal to a proper name is found and reported.
  \<open>main\<close> passes the English words alone as \<open>words_set\<close>: with the English word \<open>owl\<close> and
  the name \<open>abe\<close>, on the melody C D G in C major, the candidate \<open>abe\<close> is produced and has a
  decomposition over the union, yet the segmenter returns \<open>None\<close> for it and only \<open>owl\<close> is
  reported.
\<close>

theorem name_candidate_is_not_reported:
  "(\<exists>mapping. create_letter_note_mapping c_major = Inr mapping
      \<and> ''abe'' \<in> set (decode_melody (reverse_mapping mapping) demo_enh [''C'', ''D'', ''G'']))
   \<and> decomposes ({''owl''} \<union> {''abe''}) ''abe'' [''abe'']
   \<and> segment_into_words ''abe'' {''owl''} (build_prefix_set ({''owl''} \<union> {''abe''}))
        (int (max_len ({''owl''} \<union> {''abe''}))) = None
   \<and> main_decode demo_enh demo_modes ''C D G'' {''owl''} {''abe''}
      = BestPhrases [\<lparr>phrase_text = ''owl'', decoded_root_note = ''C'',
                       decoded_scale = ''Major'', num_words = 1\<rparr>]"
proof -
  have m: "create_letter_note_mapping c_major = Inr
       [(CHR ''a'', ''C''), (CHR ''b'', ''D''), (CHR ''c'', ''E''), (CHR ''d'', ''F''),
        (CHR ''e'', ''G''), (CHR ''f'', ''A''), (CHR ''g'', ''B''), (CHR ''h'', ''C''),
        (CHR ''i'', ''D''), (CHR ''j'', ''E''), (CHR ''k'', ''F''), (CHR ''l'', ''G''),
        (CHR ''m'', ''A''), (CHR ''n'', ''B''), (CHR ''o'', ''C''), (CHR ''p'', ''D''),
        (CHR ''q'', ''E''), (CHR ''r'', ''F''), (CHR ''s'', ''G''), (CHR ''t'', ''A''),
        (CHR ''u'', ''B''), (CHR ''v'', ''C''), (CHR ''w'', ''D''), (CHR ''x'', ''E''),
        (CHR ''y'', ''F''), (CHR ''z'', ''G'')]"
    by code_simp
  have c: "''abe'' \<in> set (decode_melody (reverse_mapping
       [(CHR ''a'', ''C''), (CHR ''b'', ''D''), (CHR ''c'', ''E''), (CHR ''d'', ''F''),
        (CHR ''e'', ''G''), (CHR ''f'', ''A''), (CHR ''g'', ''B''), (CHR ''h'', ''C''),
        (CHR ''i'', ''D''), (CHR ''j'', ''E''), (CHR ''k'', ''F''), (CHR ''l'', ''G''),
        (CHR ''m'', ''A''), (CHR ''n'', ''B''), (CHR ''o'', ''C''), (CHR ''p'', ''D''),
        (CHR ''q'', ''E''), (CHR ''r'', ''F''), (CHR ''s'', ''G''), (CHR ''t'', ''A''),
        (CHR ''u'', ''B''), (CHR ''v'', ''C''), (CHR ''w'', ''D''), (CHR ''x'', ''E''),
        (CHR ''y'', ''F''), (CHR ''z'', ''G'')]) demo_enh [''C'', ''D'', ''G''])"
    by code_simp
  have d: "decomposes ({''owl''} \<union> {''abe''}) ''abe'' [''abe'']"
    by (simp add: decomposes_def)
  have s: "segment_into_words ''abe'' {''owl''} (build_prefix_set ({''owl''} \<union> {''abe''}))
        (int (max_len ({''owl''} \<union> {''abe''}))) = None"
    by code_simp
  have r: "main_decode demo_enh demo_modes ''C D G'' {''owl''} {''abe''}
      = BestPhrases [\<lparr>phrase_text = ''owl'', decoded_root_note = ''C'',
                       decoded_scale = ''Major'', num_words = 1\<rparr>]"
    by code_simp
  from m c d s r show ?thesis by blast
qed

subsection \<open>The reported phrases\<close>

text \<open>
  Claim C2. The claim is that, after the deduplication by phrase text, the run reports
  exactly the records whose word count is the global minimum, sorted by phrase text.
  decoder.py sorts the deduplicated records and prints all of them under the heading
  of the fewest words: with the English words \<open>a\<close>, \<open>be\<close> and \<open>owl\<close>, on the melody C D G in
  C major, it reports the two-word phrase \<open>a be\<close> beside the one-word phrase \<open>owl\<close>.
  The ranking step of audiocipher\_decoder.py keeps \<open>owl\<close> alone on the same records.
\<close>

theorem decoder_reports_longer_phrases:
  "main_decode demo_enh demo_modes ''C D G'' {''a'', ''be'', ''owl''} {}
     = BestPhrases
         [\<lparr>phrase_text = ''a be'', decoded_root_note = ''C'', decoded_scale = ''Major'', num_words = 2\<rparr>,
          \<lparr>phrase_text = ''owl'', decoded_root_note = ''C'', decoded_scale = ''Major'', num_words = 1\<rparr>]
   \<and> ac_report_results
         [\<lparr>phrase_text = ''a be'', decoded_root_note = ''C'', decoded_scale = ''Major'', num_words = 2\<rparr>,
          \<lparr>phrase_text = ''owl'', decoded_root_note = ''C'', decoded_scale = ''Major'', num_words = 1\<rparr>]
     = BestPhrases
         [\<lparr>phrase_text = ''owl'', decoded_root_note = ''C'', decoded_scale = ''Major'', num_words = 1\<rparr>]"
proof -
  have a: "main_decode demo_enh demo_modes ''C D G'' {''a'', ''be'', ''owl''} {}
     = BestPhrases
         [\<lparr>phrase_text = ''a be'', decoded_root_note = ''C'', decoded_scale = ''Major'', num_words = 2\<rparr>,
          \<lparr>phrase_text = ''owl'', decoded_root_note = ''C'', decoded_scale = ''Major'', num_words = 1\<rparr>]"
    by code_simp
  have b: "ac_report_results
         [\<lparr>phrase_text = ''a be'', decoded_root_note = ''C'', decoded_scale = ''Major'', num_words = 2\<rparr>,
          \<lparr>phrase_text = ''owl'', decoded_root_note = ''C'', decoded_scale = ''Major'', num_words = 1\<rparr>]
     = BestPhrases
         [\<lparr>phrase_text = ''owl'', decoded_root_note = ''C'', decoded_scale = ''Major'', num_words = 1\<rparr>]"
    by code_simp
  from a b show ?thesis by blast
qed


subsection \<open>Round trip\<close>

text \<open>
  Claim C7. For every string, word set, prefix set and maximum word length: when
  \<open>segment_into_words\<close> returns a phrase, the concatenation of its words is the input
  string, with nothing dropped, added or reordered.
\<close>

theorem segment_round_trip:
  "segment_into_words s W P m = Some p \<Longrightarrow> concat p = s"
  using segment_decomposes [of s W P m p] by (simp add: decomposes_def)

theorem segment_round_trip_witness:
  "segment_into_words ''abe'' {''a'', ''be'', ''owl''} {''b'', ''o'', ''ow''} 3 = Some [''a'', ''be'']
   \<and> concat [''a'', ''be''] = ''abe''"
proof -
  have h: "segment_into_words ''abe'' {''a'', ''be'', ''owl''} {''b'', ''o'', ''ow''} 3
             = Some [''a'', ''be'']"
    by code_simp
  from h segment_round_trip [OF h] show ?thesis by simp
qed

subsection \<open>Validation after segmentation\<close>

lemma is_valid_loop_iff:
  "is_valid_loop p all_names english_words \<longleftrightarrow>
     (\<forall>w \<in> set p. (length w = 1 \<longrightarrow> w \<in> valid_single_letter_words)
                  \<and> (w \<in> english_words \<or> w \<in> all_names))"
  by (induction p) auto

text \<open>
  Claim C10. Let the single-character members of the word set \<open>W\<close> be only \<open>a\<close> and
  \<open>i\<close>, and let \<open>W\<close> be contained in the union of the English words and the names.
  Then every non-empty phrase that \<open>segment_into_words\<close> returns over \<open>W\<close> passes
  \<open>is_valid_phrase\<close>: validation never rejects what the segmenter produced.
\<close>

theorem segment_phrase_is_valid:
  assumes "\<forall>w \<in> W. length w = 1 \<longrightarrow> w \<in> {''a'', ''i''}"
    and "W \<subseteq> english_words \<union> all_names"
    and "segment_into_words s W P m = Some p"
    and "p \<noteq> []"
  shows "is_valid_phrase p all_names english_words"
proof -
  have "set p \<subseteq> W"
    using segment_decomposes [OF assms(3)] by (simp add: decomposes_def)
  then have "\<forall>w \<in> set p. (length w = 1 \<longrightarrow> w \<in> valid_single_letter_words)
                          \<and> (w \<in> english_words \<or> w \<in> all_names)"
    using assms(1,2) unfolding valid_single_letter_words_def by blast
  then show ?thesis
    using assms(4) by (simp add: is_valid_phrase_def is_valid_loop_iff)
qed

theorem segment_phrase_is_valid_witness:
  "segment_into_words ''icat'' {''i'', ''cat''} {''c'', ''ca''} 3 = Some [''i'', ''cat'']
   \<and> is_valid_phrase [''i'', ''cat''] {''cat''} {''i''}"
proof -
  have h1: "\<forall>w \<in> {''i'', ''cat''}. length w = 1 \<longrightarrow> w \<in> {''a'', ''i''}" by simp
  have h2: "{''i'', ''cat''} \<subseteq> {''i''} \<union> {''cat''}" by simp
  have h3: "segment_into_words ''icat'' {''i'', ''cat''} {''c'', ''ca''} 3 = Some [''i'', ''cat'']"
    by code_simp
  have h4: "[''i'', ''cat''] \<noteq> []" by simp
  from h3 segment_phrase_is_valid [OF h1 h2 h3 h4] show ?thesis by simp
qed

subsection \<open>The prefix set\<close>

lemma seg_step_prefix_free:
  "seg_step s (english_words \<union> all_names) P i j dp = md_seg_step s english_words all_names i j dp"
  by (simp add: seg_step_def md_seg_step_def Let_def split: option.splits)

lemma seg_inner_prefix_free:
  "seg_inner s (english_words \<union> all_names) P m i = md_seg_inner s english_words all_names m i"
proof -
  have "seg_step s (english_words \<union> all_names) P i = md_seg_step s english_words all_names i"
    by (intro ext) (rule seg_step_prefix_free)
  then show ?thesis by (intro ext) (simp add: seg_inner_def md_seg_inner_def)
qed

lemma segment_prefix_free:
  "segment_into_words s (english_words \<union> all_names) P m
     = md_segment_into_words s english_words all_names m"
proof -
  have "seg_inner s (english_words \<union> all_names) P m = md_seg_inner s english_words all_names m"
    by (intro ext) (simp add: seg_inner_prefix_free)
  then show ?thesis
    by (simp add: segment_into_words_def seg_table_def md_segment_into_words_def Let_def)
qed

text \<open>
  Claim C9. The argument \<open>prefixes_set\<close> has no effect on the output: under any two
  prefix sets \<open>segment_into_words\<close> returns the same result, and that result is the one
  of the prefix-free segmenter of melody\_decoder.py whenever the two word sets of that
  segmenter have the word set as their union.
\<close>

theorem prefixes_set_has_no_effect:
  assumes "english_words \<union> all_names = W"
  shows "segment_into_words s W P1 m = segment_into_words s W P2 m
       \<and> segment_into_words s W P1 m = md_segment_into_words s english_words all_names m"
  using segment_prefix_free [of s english_words all_names P1 m]
        segment_prefix_free [of s english_words all_names P2 m] assms
  by simp

theorem prefixes_set_has_no_effect_witness:
  "segment_into_words ''abe'' {''a'', ''be''} {} 2
     = segment_into_words ''abe'' {''a'', ''be''} {''b'', ''x''} 2
   \<and> segment_into_words ''abe'' {''a'', ''be''} {} 2
     = md_segment_into_words ''abe'' {''a''} {''be''} 2"
proof -
  have h: "{''a''} \<union> {''be''} = {''a'', ''be''}" by auto
  from prefixes_set_has_no_effect [OF h] show ?thesis by blast
qed


subsection \<open>Minimal word count\<close>

text \<open>
  Claim C1. For every string \<open>s\<close> and (finite) word set \<open>W\<close>, with \<open>max_word_length\<close> the
  maximum length of the members of \<open>W\<close>: \<open>segment_into_words\<close> returns \<open>None\<close> exactly when
  \<open>s\<close> has no decomposition into members of \<open>W\<close>, and otherwise it returns a list of members
  of \<open>W\<close> that concatenates to \<open>s\<close> and whose word count is minimal among all decompositions.
\<close>

theorem segment_minimal_word_count:
  assumes "finite W"
  shows "(segment_into_words s W P (int (max_len W)) = None \<longleftrightarrow> \<not> (\<exists>ws. decomposes W s ws))
       \<and> (\<forall>p. segment_into_words s W P (int (max_len W)) = Some p \<longrightarrow>
              decomposes W s p \<and> (\<forall>ws. decomposes W s ws \<longrightarrow> length p \<le> length ws))"
proof -
  let ?r = "segment_into_words s W P (int (max_len W))"
  note bound = max_len_bound [OF assms]
  have complete: "\<exists>p. ?r = Some p \<and> length p \<le> length ws" if "decomposes W s ws" for ws
    using segment_minimal [OF bound that] .
  have sound: "decomposes W s p" if "?r = Some p" for p
    using segment_decomposes [OF that] .
  have "?r = None \<longleftrightarrow> \<not> (\<exists>ws. decomposes W s ws)"
  proof
    assume "?r = None"
    then show "\<not> (\<exists>ws. decomposes W s ws)" using complete by fastforce
  next
    assume none: "\<not> (\<exists>ws. decomposes W s ws)"
    show "?r = None"
    proof (cases ?r)
      case None
      then show ?thesis .
    next
      case (Some p)
      then show ?thesis using sound none by blast
    qed
  qed
  moreover have "\<forall>p. ?r = Some p \<longrightarrow>
      decomposes W s p \<and> (\<forall>ws. decomposes W s ws \<longrightarrow> length p \<le> length ws)"
    using sound complete by fastforce
  ultimately show ?thesis by blast
qed

theorem segment_minimal_word_count_witness:
  "finite {''a'', ''be'', ''abe'', ''x''}
   \<and> segment_into_words ''abe'' {''a'', ''be'', ''abe'', ''x''} {} (int (max_len {''a'', ''be'', ''abe'', ''x''}))
       = Some [''abe'']
   \<and> decomposes {''a'', ''be'', ''abe'', ''x''} ''abe'' [''a'', ''be'']
   \<and> length [''abe''] \<le> length [''a'', ''be'']
   \<and> segment_into_words ''abc'' {''a'', ''be'', ''abe'', ''x''} {} (int (max_len {''a'', ''be'', ''abe'', ''x''}))
       = None
   \<and> \<not> (\<exists>ws. decomposes {''a'', ''be'', ''abe'', ''x''} ''abc'' ws)"
proof -
  let ?W = "{''a'', ''be'', ''abe'', ''x''}"
  have fin: "finite ?W" by simp
  have r: "segment_into_words ''abe'' ?W {} (int (max_len ?W)) = Some [''abe'']"
    by code_simp
  have d: "decomposes ?W ''abe'' [''a'', ''be'']"
    by (simp add: decomposes_def)
  have n: "segment_into_words ''abc'' ?W {} (int (max_len ?W)) = None"
    by code_simp
  from segment_minimal_word_count [OF fin, of "''abc''" "{}"] n
  have no: "\<not> (\<exists>ws. decomposes ?W ''abc'' ws)" by blast
  from segment_minimal_word_count [OF fin, of "''abe''" "{}"] r d
  have "length [''abe''] \<le> length [''a'', ''be'']" by blast
  with fin r d n no show ?thesis by blast
qed

subsection \<open>Monotonicity in the lexicon\<close>

text \<open>
  Claim C8. For every string and (finite) word sets \<open>W \<subseteq> W'\<close>, each used with its own
  maximum word length: when \<open>segment_into_words\<close> returns a phrase of \<open>k\<close> words under
  \<open>W\<close>, it returns a phrase of at most \<open>k\<close> words under \<open>W'\<close>; a string that can be
  segmented under \<open>W\<close> can be segmented under \<open>W'\<close>.
\<close>

theorem segment_monotone:
  assumes "finite W'" and "W \<subseteq> W'"
    and "segment_into_words s W P (int (max_len W)) = Some p"
  shows "\<exists>p'. segment_into_words s W' P' (int (max_len W')) = Some p' \<and> length p' \<le> length p"
proof -
  have "decomposes W s p" using segment_decomposes [OF assms(3)] .
  then have "decomposes W' s p" using assms(2) by (auto simp: decomposes_def)
  then show ?thesis using segment_minimal [OF max_len_bound [OF assms(1)]] by blast
qed

theorem segment_monotone_witness:
  "finite {''a'', ''be'', ''abe''} \<and> {''a'', ''be''} \<subseteq> {''a'', ''be'', ''abe''}
   \<and> segment_into_words ''abe'' {''a'', ''be''} {} (int (max_len {''a'', ''be''})) = Some [''a'', ''be'']
   \<and> (\<exists>p'. segment_into_words ''abe'' {''a'', ''be'', ''abe''} {''a'', ''ab''}
              (int (max_len {''a'', ''be'', ''abe''})) = Some p'
            \<and> length p' \<le> length [''a'', ''be''])"
proof -
  have fin: "finite {''a'', ''be'', ''abe''}" by simp
  have sub: "{''a'', ''be''} \<subseteq> {''a'', ''be'', ''abe''}" by auto
  have r: "segment_into_words ''abe'' {''a'', ''be''} {} (int (max_len {''a'', ''be''}))
             = Some [''a'', ''be'']"
    by code_simp
  from fin sub r segment_monotone [OF fin sub r, of "{''a'', ''ab''}"] show ?thesis by blast
qed


end
